theory Spec2Isabelle
  imports Main
begin

section \<open>Values, sets and objects of the JavaScript program\<close>

text \<open>
  The arguments the methods of \<open>Graph\<close> receive are JavaScript values. The model keeps
  the three kinds the code tells apart: \<open>undefined\<close>, \<open>null\<close> and a reference to an
  object, compared by identity. \<open>Obj i\<close> is the object at address \<open>i\<close>.
\<close>

datatype jsval = Undefined | Null | Obj nat

text \<open>The test \<open>!vertex\<close> of the source: only \<open>undefined\<close> and \<open>null\<close> are falsy here.\<close>

fun falsy :: "jsval \<Rightarrow> bool" where
  "falsy Undefined = True"
| "falsy Null = True"
| "falsy (Obj i) = False"

text \<open>
  A \<open>TypeError\<close> is thrown on reading a field of \<open>null\<close> or \<open>undefined\<close> and on calling
  a method of a field that is not there; a \<open>RangeError\<close> when a call finds no room on
  the call stack.
\<close>

datatype error = TypeError | RangeError

text \<open>
  A JavaScript \<open>Set\<close> keeps its entries in insertion order. Its iterator walks the entry
  list by position; \<open>delete\<close> does not shift the list but overwrites the entry with an
  empty mark, which the iterator passes over (ECMAScript: Set.prototype.delete and
  the Set iterator). The model is that entry list: \<open>None\<close> is the empty mark.
\<close>

type_synonym 'a jsset = "'a option list"

definition has :: "'a \<Rightarrow> 'a jsset \<Rightarrow> bool" where
  "has x s = (Some x \<in> set s)"

definition add :: "'a \<Rightarrow> 'a jsset \<Rightarrow> 'a jsset" where
  "add x s = (if has x s then s else s @ [Some x])"

definition delete :: "'a \<Rightarrow> 'a jsset \<Rightarrow> 'a jsset" where
  "delete x s = map (\<lambda>e. if e = Some x then None else e) s"

text \<open>The entries a \<open>forEach\<close> over an unchanging set visits, in order.\<close>

fun elems :: "'a jsset \<Rightarrow> 'a list" where
  "elems [] = []"
| "elems (None # s) = elems s"
| "elems (Some x # s) = x # elems s"

text \<open>
  \<open>class Node\<close>. The constructor stores the \<open>Set\<close> it is given, or a new one, in the
  field \<open>adjacent\<close>: the object holds a reference to a \<open>Set\<close>, and the same \<open>Set\<close> can
  be held by several \<open>Node\<close> objects, or be the \<open>nodes\<close> of a \<open>Graph\<close>. So a
  \<open>Node\<close> object is its value and the address of its \<open>Set\<close>.
\<close>

record 'a node_object =
  value_field :: 'a
  adjacent_field :: nat

text \<open>
  The state the methods run in: the \<open>Node\<close> objects, by address; the \<open>Set\<close> objects,
  by address (an address not yet used holds an empty \<open>Set\<close>); the address of the \<open>Set\<close>
  in the field \<open>nodes\<close> of the \<open>Graph\<close>; and the room on the call stack, counted in
  nested activations of the closure \<open>dfs\<close> beyond the first (each stands on the frames
  of \<open>dfs\<close>, \<open>forEach\<close> and the callback; how many fit depends on the engine and on
  how deep the caller already is). Calls that nest to a fixed depth only are taken to
  fit. A reference beyond \<open>objects\<close> stands for an object that is not a \<open>Node\<close>.
\<close>

record 'a state =
  objects :: "'a node_object list"
  sets :: "nat \<Rightarrow> jsval jsset"
  nodes_field :: nat
  stack_room :: nat

text \<open>
  What a reader of the state sees: \<open>this.nodes\<close> as a set, and every \<open>Node\<close> with its
  value and the present entries of its \<open>adjacent\<close>.
\<close>

record 'a node =
  val :: 'a
  adjacent :: "jsval jsset"

definition nodes :: "'a state \<Rightarrow> jsval jsset" where
  "nodes s = sets s (nodes_field s)"

definition heap :: "'a state \<Rightarrow> 'a node list" where
  "heap s = map (\<lambda>ob. \<lparr>val = value_field ob, adjacent = sets s (adjacent_field ob)\<rparr>) (objects s)"

text \<open>
  Reading the fields of a value: a value that is not a \<open>Node\<close> has no \<open>adjacent\<close>
  set, so calling a method on that field throws a \<open>TypeError\<close>, as reading a field
  of \<open>null\<close> or \<open>undefined\<close> does.
\<close>

fun node_of :: "'a node list \<Rightarrow> jsval \<Rightarrow> 'a node option" where
  "node_of h (Obj i) = (if i < length h then Some (h ! i) else None)"
| "node_of h Undefined = None"
| "node_of h Null = None"

text \<open>A method \<open>add\<close> or \<open>delete\<close> of the \<open>Set\<close> at an address.\<close>

definition set_upd :: "(jsval jsset \<Rightarrow> jsval jsset) \<Rightarrow> nat \<Rightarrow> 'a state \<Rightarrow> 'a state" where
  "set_upd f a s = s\<lparr>sets := (sets s)(a := f (sets s a))\<rparr>"

text \<open>
  \<open>v.adjacent.add(w)\<close> and \<open>v.adjacent.delete(w)\<close>: the method of the \<open>Set\<close> the object
  \<open>v\<close> holds, or a \<open>TypeError\<close> when \<open>v\<close> is not a \<open>Node\<close>.
\<close>

fun adjacent_upd :: "(jsval jsset \<Rightarrow> jsval jsset) \<Rightarrow> jsval \<Rightarrow> 'a state \<Rightarrow> error + 'a state" where
  "adjacent_upd f (Obj i) s =
     (if i < length (objects s)
      then Inr (set_upd f (adjacent_field (objects s ! i)) s)
      else Inl TypeError)"
| "adjacent_upd f Undefined s = Inl TypeError"
| "adjacent_upd f Null s = Inl TypeError"

section \<open>The mutating methods\<close>

text \<open>
  A method returns the error it threw, if any, and the state it left behind: a method
  that throws half way keeps the updates it made before.
\<close>

definition addVertex :: "'a state \<Rightarrow> jsval \<Rightarrow> error option \<times> 'a state" where
  "addVertex s vertex = (None, set_upd (add vertex) (nodes_field s) s)"

fun addVertices :: "'a state \<Rightarrow> jsval list \<Rightarrow> error option \<times> 'a state" where
  "addVertices s [] = (None, s)"
| "addVertices s (vertex # vertexArray) =
     addVertices (set_upd (add vertex) (nodes_field s) s) vertexArray"

definition addEdge :: "'a state \<Rightarrow> jsval \<Rightarrow> jsval \<Rightarrow> error option \<times> 'a state" where
  "addEdge s v1 v2 =
     (if \<not> has v1 (nodes s) \<or> \<not> has v2 (nodes s) then (None, s)
      else case adjacent_upd (add v2) v1 s of
             Inl e \<Rightarrow> (Some e, s)
           | Inr s1 \<Rightarrow> (case adjacent_upd (add v1) v2 s1 of
                          Inl e \<Rightarrow> (Some e, s1)
                        | Inr s2 \<Rightarrow> (None, s2)))"

definition removeEdge :: "'a state \<Rightarrow> jsval \<Rightarrow> jsval \<Rightarrow> error option \<times> 'a state" where
  "removeEdge s v1 v2 =
     (if \<not> has v1 (nodes s) \<or> \<not> has v2 (nodes s) then (None, s)
      else case adjacent_upd (delete v2) v1 s of
             Inl e \<Rightarrow> (Some e, s)
           | Inr s1 \<Rightarrow> (case adjacent_upd (delete v1) v2 s1 of
                          Inl e \<Rightarrow> (Some e, s1)
                        | Inr s2 \<Rightarrow> (None, s2)))"

text \<open>
  The loop \<open>for (let adjacentVertex of vertex.adjacent)\<close> of \<open>removeVertex\<close> runs the
  iterator of the live set: at position \<open>i\<close> it reads entry \<open>i\<close> of the set as it is
  then, passes over an empty mark, and stops at the end of the entry list. The body
  calls \<open>removeEdge\<close>, which changes that same set, and reads \<open>this.nodes\<close> as it is
  then.
\<close>

function removeVertex_loop :: "'a state \<Rightarrow> jsval \<Rightarrow> nat \<Rightarrow> error option \<times> 'a state" where
  "removeVertex_loop s vertex i =
     (case node_of (heap s) vertex of
        None \<Rightarrow> (Some TypeError, s)
      | Some n \<Rightarrow>
          if i < length (adjacent n) then
            (case adjacent n ! i of
               None \<Rightarrow> removeVertex_loop s vertex (i + 1)
             | Some adjacentVertex \<Rightarrow>
                 (case removeEdge s vertex adjacentVertex of
                    (Some e, s') \<Rightarrow> (Some e, s')
                  | (None, s') \<Rightarrow> removeVertex_loop s' vertex (i + 1)))
          else (None, s))"
  by pat_completeness auto

definition adj_len :: "'a state \<Rightarrow> jsval \<Rightarrow> nat" where
  "adj_len s v = (case node_of (heap s) v of None \<Rightarrow> 0 | Some n \<Rightarrow> length (adjacent n))"

lemma length_heap [simp]: "length (heap s) = length (objects s)"
  by (simp add: heap_def)

lemma nth_heap:
  "i < length (objects s) \<Longrightarrow>
     heap s ! i = \<lparr>val = value_field (objects s ! i), adjacent = sets s (adjacent_field (objects s ! i))\<rparr>"
  by (simp add: heap_def)

lemma set_upd_fixed [simp]:
  "objects (set_upd f a s) = objects s"
  "nodes_field (set_upd f a s) = nodes_field s"
  "stack_room (set_upd f a s) = stack_room s"
  by (simp_all add: set_upd_def)

lemma sets_set_upd: "sets (set_upd f a s) b = (if b = a then f (sets s a) else sets s b)"
  by (simp add: set_upd_def)

lemma delete_len: "length (delete x s) = length s"
  by (simp add: delete_def)

lemma adj_len_set_upd:
  assumes "\<And>x. length (f x) = length x"
  shows "adj_len (set_upd f a s) v = adj_len s v"
  by (cases v) (simp_all add: adj_len_def nth_heap sets_set_upd assms)

lemma adjacent_upd_len:
  assumes "adjacent_upd f w s = Inr s'" and "\<And>x. length (f x) = length x"
  shows "adj_len s' v = adj_len s v"
proof (cases w)
  case (Obj i)
  with assms(1) have "s' = set_upd f (adjacent_field (objects s ! i)) s"
    by (auto split: if_splits)
  then show ?thesis by (simp add: adj_len_set_upd assms(2))
qed (use assms(1) in simp_all)

lemma removeEdge_len: "adj_len (snd (removeEdge s v1 v2)) v = adj_len s v"
  by (auto simp: removeEdge_def adjacent_upd_len delete_len split: sum.splits)

lemma removeEdge_len_eq: "removeEdge s v1 v2 = (e, s') \<Longrightarrow> adj_len s' v = adj_len s v"
  using removeEdge_len [of s v1 v2 v] by simp

lemma removeVertex_loop_total: "All removeVertex_loop_dom"
proof (relation "measure (\<lambda>(s, v, i). adj_len s v - i)", goal_cases)
  case 1
  show ?case by simp
next
  case (2 s vertex i n)
  then show ?case by (simp add: adj_len_def)
next
  case (3 s vertex i n adjacentVertex e s')
  then have "adj_len s' vertex = adj_len s vertex"
    by (metis removeEdge_len_eq)
  with 3 show ?case by (simp add: adj_len_def)
qed

termination removeVertex_loop
  by (rule removeVertex_loop_total)

declare removeVertex_loop.simps [simp del]

definition removeVertex :: "'a state \<Rightarrow> jsval \<Rightarrow> error option \<times> 'a state" where
  "removeVertex s vertex =
     (if \<not> has vertex (nodes s) then (None, s)
      else case removeVertex_loop s vertex 0 of
             (Some e, s') \<Rightarrow> (Some e, s')
           | (None, s') \<Rightarrow> (None, set_upd (delete vertex) (nodes_field s') s'))"


section \<open>The traversals\<close>

text \<open>
  \<open>depthFirstSearch\<close>: the closure \<open>dfs\<close> and the callback it passes to \<open>forEach\<close>
  call each other; both update the local variables \<open>visited\<close> and \<open>result\<close>, which the
  model threads through as a pair. The adjacency sets are not changed while they are
  traversed, so \<open>forEach\<close> visits the entries \<open>elems\<close> gives. A vertex that is an
  object but not a \<open>Node\<close> makes \<open>vertex.adjacent.forEach\<close> throw. The callback
  calls \<open>dfs\<close> from inside \<open>dfs\<close>: \<open>room\<close> is the number of such nested activations
  the call stack still has room for, and a call without room throws a \<open>RangeError\<close>.
\<close>

function dfs :: "'a node list \<Rightarrow> nat \<Rightarrow> jsval \<Rightarrow> jsval jsset \<times> 'a list \<Rightarrow> error + jsval jsset \<times> 'a list"
  and dfs_forEach :: "'a node list \<Rightarrow> nat \<Rightarrow> jsval list \<Rightarrow> jsval jsset \<times> 'a list \<Rightarrow> error + jsval jsset \<times> 'a list"
where
  "dfs h room vertex (visited, result) =
     (if falsy vertex then Inr (visited, result)
      else case node_of h vertex of
             None \<Rightarrow> Inl TypeError
           | Some n \<Rightarrow> dfs_forEach h room (elems (adjacent n)) (add vertex visited, result @ [val n]))"
| "dfs_forEach h room [] st = Inr st"
| "dfs_forEach h room (neighbor # rest) (visited, result) =
     (if \<not> has neighbor visited
      then (if room = 0 then Inl RangeError
            else case dfs h (room - 1) neighbor (visited, result) of
                   Inl e \<Rightarrow> Inl e
                 | Inr st' \<Rightarrow> dfs_forEach h room rest st')
      else dfs_forEach h room rest (visited, result))"
  by pat_completeness auto

lemma dfs_total: "All dfs_dfs_forEach_dom"
proof (relation "inv_image (less_than <*lex*> less_than <*lex*> less_than)
    (\<lambda>x. case x of
        Inl (h, room, v, st) \<Rightarrow> (room, 1::nat, 0::nat)
      | Inr (h, room, ns, st) \<Rightarrow> (room, 0, length ns))",
    goal_cases)
  case 1
  show ?case by (intro wf_inv_image wf_lex_prod wf_less_than)
qed simp_all

termination dfs
  by (rule dfs_total)

definition depthFirstSearch :: "'a state \<Rightarrow> jsval \<Rightarrow> (error + 'a list) \<times> 'a state" where
  "depthFirstSearch s start =
     (case dfs (heap s) (stack_room s) start ([], []) of
        Inl e \<Rightarrow> (Inl e, s)
      | Inr (visited, result) \<Rightarrow> (Inr result, s))"

text \<open>
  \<open>breadthFirstSearch\<close>: the callback of \<open>forEach\<close> marks and enqueues; the loop
  dequeues. Nothing here nests calls beyond a fixed depth.
\<close>

fun bfs_forEach :: "jsval list \<Rightarrow> jsval jsset \<times> jsval list \<Rightarrow> jsval jsset \<times> jsval list" where
  "bfs_forEach [] st = st"
| "bfs_forEach (neighbor # rest) (visited, queue) =
     (if \<not> has neighbor visited
      then bfs_forEach rest (add neighbor visited, queue @ [neighbor])
      else bfs_forEach rest (visited, queue))"

function bfs_while :: "'a node list \<Rightarrow> jsval list \<Rightarrow> 'a list \<Rightarrow> jsval jsset \<Rightarrow> error + jsval jsset \<times> 'a list" where
  "bfs_while h [] result visited = Inr (visited, result)"
| "bfs_while h (vertex # queue) result visited =
     (case node_of h vertex of
        None \<Rightarrow> Inl TypeError
      | Some n \<Rightarrow>
          (case bfs_forEach (elems (adjacent n)) (visited, queue) of
             (visited', queue') \<Rightarrow> bfs_while h queue' (result @ [val n]) visited'))"
  by pat_completeness auto

lemma has_elems: "has x s \<longleftrightarrow> x \<in> set (elems s)"
  by (induction s rule: elems.induct) (auto simp: has_def)

lemma elems_append: "elems (s @ t) = elems s @ elems t"
  by (induction s rule: elems.induct) auto

lemma set_elems_add: "set (elems (add x s)) = insert x (set (elems s))"
  by (auto simp: add_def elems_append has_elems)

definition univ :: "'a node list \<Rightarrow> jsval set" where
  "univ h = (\<Union>n\<in>set h. set (elems (adjacent n)))"

lemma finite_univ: "finite (univ h)"
  by (simp add: univ_def)

lemma node_of_univ: "node_of h v = Some n \<Longrightarrow> set (elems (adjacent n)) \<subseteq> univ h"
  by (cases v) (auto simp: univ_def split: if_splits intro: nth_mem)

lemma bfs_forEach_measure:
  assumes "finite U" "set ns \<subseteq> U" "bfs_forEach ns (visited, queue) = (visited', queue')"
  shows "2 * card (U - set (elems visited')) + length queue'
       \<le> 2 * card (U - set (elems visited)) + length queue"
  using assms(2,3)
proof (induction ns arbitrary: visited queue)
  case Nil
  then show ?case by simp
next
  case (Cons n ns)
  show ?case
  proof (cases "has n visited")
    case True
    with Cons show ?thesis by simp
  next
    case False
    with Cons.prems have r: "bfs_forEach ns (add n visited, queue @ [n]) = (visited', queue')"
      by simp
    from Cons.prems(1) have ns: "set ns \<subseteq> U" and n: "n \<in> U" by auto
    have "U - set (elems (add n visited)) \<subset> U - set (elems visited)"
      using n False by (auto simp: set_elems_add has_elems)
    then have "card (U - set (elems (add n visited))) < card (U - set (elems visited))"
      by (intro psubset_card_mono) (auto simp: assms(1))
    with Cons.IH [OF ns r] show ?thesis by simp
  qed
qed

lemma bfs_total: "All bfs_while_dom"
proof (relation "measure (\<lambda>(h, queue, result, visited).
    2 * card (univ h - set (elems visited)) + length queue)", goal_cases)
  case 1
  show ?case by simp
next
  case (2 h vertex queue result visited n visited' queue')
  then have "bfs_forEach (elems (adjacent n)) (visited, queue) = (visited', queue')"
    by simp
  from bfs_forEach_measure [OF finite_univ node_of_univ [OF 2(1)] this]
  show ?case by simp
qed

termination bfs_while
  by (rule bfs_total)

definition breadthFirstSearch :: "'a state \<Rightarrow> jsval \<Rightarrow> (error + 'a list) \<times> 'a state" where
  "breadthFirstSearch s start =
     (case bfs_while (heap s) [start] [] (add start []) of
        Inl e \<Rightarrow> (Inl e, s)
      | Inr (visited, result) \<Rightarrow> (Inr result, s))"

section \<open>Notions of the specification\<close>

text \<open>\<open>v.adjacent\<close> as a set; a value that is not a \<open>Node\<close> has no neighbours.\<close>

definition adjacent_of :: "'a state \<Rightarrow> jsval \<Rightarrow> jsval jsset" where
  "adjacent_of s v = (case node_of (heap s) v of None \<Rightarrow> [] | Some n \<Rightarrow> adjacent n)"

text \<open>The value is a vertex: an object of class \<open>Node\<close>.\<close>

definition is_node :: "'a state \<Rightarrow> jsval \<Rightarrow> bool" where
  "is_node s v = (node_of (heap s) v \<noteq> None)"

text \<open>The data model of the specification: \<open>nodes\<close> is a set of vertices.\<close>

definition vertices_only :: "'a state \<Rightarrow> bool" where
  "vertices_only s \<longleftrightarrow> (\<forall>v\<in>set (elems (nodes s)). is_node s v)"

text \<open>
  Every \<open>Node\<close> holds a \<open>Set\<close> of its own: no \<open>Set\<close> is the \<open>adjacent\<close> of two
  \<open>Node\<close> objects, and none is the \<open>nodes\<close> of the graph. This is how the default
  argument of the constructor, \<open>new Set()\<close>, leaves every \<open>Node\<close>.
\<close>

definition unshared :: "'a state \<Rightarrow> bool" where
  "unshared s \<longleftrightarrow>
     distinct (map adjacent_field (objects s))
     \<and> nodes_field s \<notin> set (map adjacent_field (objects s))"

text \<open>
  Edge symmetry: for two vertices \<open>u\<close>, \<open>v\<close> that are both in \<open>nodes\<close>, \<open>u\<close> is in
  \<open>v.adjacent\<close> if and only if \<open>v\<close> is in \<open>u.adjacent\<close>.
\<close>

definition sym_pair :: "'a state \<Rightarrow> jsval \<Rightarrow> jsval \<Rightarrow> bool" where
  "sym_pair s u v \<longleftrightarrow>
     (is_node s u \<and> is_node s v \<longrightarrow> has u (adjacent_of s v) = has v (adjacent_of s u))"

definition symmetric :: "'a state \<Rightarrow> bool" where
  "symmetric s \<longleftrightarrow> (\<forall>u\<in>set (elems (nodes s)). \<forall>v\<in>set (elems (nodes s)). sym_pair s u v)"

text \<open>\<open>vertex.value\<close>, for a value that is a vertex.\<close>

definition value_of :: "'a node list \<Rightarrow> jsval \<Rightarrow> 'a option" where
  "value_of h v = map_option val (node_of h v)"

text \<open>Reachable from \<open>start\<close> through adjacency sets, \<open>start\<close> itself included.\<close>

inductive reaches :: "'a node list \<Rightarrow> jsval \<Rightarrow> jsval \<Rightarrow> bool" for h :: "'a node list" and start :: jsval where
  start: "reaches h start start"
| link: "reaches h start u \<Longrightarrow> node_of h u = Some n \<Longrightarrow> has v (adjacent n) \<Longrightarrow> reaches h start v"

text \<open>The data model again: every entry of an adjacency set is a vertex.\<close>

definition closed_heap :: "'a node list \<Rightarrow> bool" where
  "closed_heap h \<longleftrightarrow> (\<forall>n\<in>set h. \<forall>w\<in>set (elems (adjacent n)). node_of h w \<noteq> None)"

text \<open>
  The invariant of both traversals on the local variables \<open>visited\<close> and \<open>result\<close>:
  the vertices in \<open>visited\<close>, in the order they were marked, are pairwise different,
  are reachable from \<open>start\<close>, and \<open>result\<close> lists their values in that order.
\<close>

definition trace_ok :: "'a node list \<Rightarrow> jsval \<Rightarrow> jsval jsset \<times> 'a list \<Rightarrow> bool" where
  "trace_ok h start st \<longleftrightarrow>
     distinct (elems (fst st))
     \<and> map (value_of h) (elems (fst st)) = map Some (snd st)
     \<and> (\<forall>v\<in>set (elems (fst st)). reaches h start v)"

text \<open>
  Three notions for the proofs. \<open>joins s v1 v2 u x\<close>: the entry \<open>x\<close> of \<open>u.adjacent\<close>
  is one that \<open>addEdge(v1, v2)\<close> writes and \<open>removeEdge(v1, v2)\<close> erases in state \<open>s\<close>.
  \<open>pending s v i\<close>: the neighbours the loop of \<open>removeVertex(v)\<close> still has to unlink
  when its iterator stands at position \<open>i\<close>. \<open>unlinked v R u x\<close>: the entry \<open>x\<close> of
  \<open>u.adjacent\<close> belongs to an edge between \<open>v\<close> and a vertex of \<open>R\<close>.
\<close>

definition joins :: "'a state \<Rightarrow> jsval \<Rightarrow> jsval \<Rightarrow> jsval \<Rightarrow> jsval \<Rightarrow> bool" where
  "joins s v1 v2 u x \<longleftrightarrow>
     has v1 (nodes s) \<and> has v2 (nodes s) \<and> is_node s v1
     \<and> (u = v1 \<and> x = v2 \<or> is_node s v2 \<and> u = v2 \<and> x = v1)"

definition pending :: "'a state \<Rightarrow> jsval \<Rightarrow> nat \<Rightarrow> jsval set" where
  "pending s v i = {w. Some w \<in> set (drop i (adjacent_of s v)) \<and> has w (nodes s)}"

definition unlinked :: "jsval \<Rightarrow> jsval set \<Rightarrow> jsval \<Rightarrow> jsval \<Rightarrow> bool" where
  "unlinked v R u x \<longleftrightarrow> u = v \<and> x \<in> R \<or> x = v \<and> u \<in> R"

text \<open>The number of vertices not yet in \<open>visited\<close>.\<close>

definition unvisited :: "'a node list \<Rightarrow> jsval jsset \<Rightarrow> nat" where
  "unvisited h visited = card (Obj ` {i. i < length h} - set (elems visited))"

section \<open>Example graphs\<close>

text \<open>\<open>new Node(v)\<close>, holding the new, empty \<open>Set\<close> at address \<open>a\<close>.\<close>

definition fresh :: "'a \<Rightarrow> nat \<Rightarrow> 'a node_object" where
  "fresh v a = \<lparr>value_field = v, adjacent_field = a\<rparr>"

text \<open>
  \<open>new Graph()\<close> beside \<open>Node\<close> objects already created: \<open>nodes\<close> is the empty
  \<open>Set\<close> at address 0, all other sets are empty, and the call stack has room for 3000
  nested activations of \<open>dfs\<close>.
\<close>

definition new_graph :: "'a node_object list \<Rightarrow> 'a state" where
  "new_graph obs = \<lparr>objects = obs, sets = (\<lambda>a. []), nodes_field = 0, stack_room = 3000\<rparr>"

text \<open>
  The chain of the specification: vertices A, B, C with the values 1, 2, 3 at the
  addresses 0, 1, 2, added in that order to an empty graph, then the edges A-B and B-C.
\<close>

definition chain :: "nat state" where
  "chain =
     (let g0 = new_graph [fresh 1 1, fresh 2 2, fresh 3 3];
          g1 = snd (addVertex g0 (Obj 0));
          g2 = snd (addVertex g1 (Obj 1));
          g3 = snd (addVertex g2 (Obj 2));
          g4 = snd (addEdge g3 (Obj 0) (Obj 1))
      in snd (addEdge g4 (Obj 1) (Obj 2)))"

text \<open>An empty graph beside one vertex that was created but never added.\<close>

definition lone :: "nat state" where
  "lone = new_graph [fresh 7 1]"

text \<open>The chain beside a fourth vertex, of value 5, that was created but not added.\<close>

definition spare :: "nat state" where
  "spare = chain\<lparr>objects := objects chain @ [fresh 5 4]\<rparr>"

text \<open>The chain and a vertex E of value 5 that is a member but has no edge.\<close>

definition islands :: "nat state" where
  "islands = snd (addVertex spare (Obj 3))"

text \<open>The chain closed to a cycle by the edge C-A.\<close>

definition triangle :: "nat state" where
  "triangle = snd (addEdge chain (Obj 2) (Obj 0))"

text \<open>
  Vertex B was constructed with A in its adjacency set (\<open>new Node(2, new Set([A]))\<close>);
  only A has been added to the graph.
\<close>

definition lopsided :: "nat state" where
  "lopsided =
     snd (addVertex ((new_graph [fresh 1 1, fresh 2 2])\<lparr>sets := (\<lambda>a. [])(2 := [Some (Obj 0)])\<rparr>) (Obj 0))"

text \<open>
  A and B were constructed with one \<open>Set\<close> (\<open>S = new Set(); A = new Node(1, S);
  B = new Node(2, S); C = new Node(3)\<close>); then \<open>addVertices([A, B, C])\<close>.
\<close>

definition twins :: "nat state" where
  "twins = snd (addVertices (new_graph [fresh 1 1, fresh 2 1, fresh 3 2]) [Obj 0, Obj 1, Obj 2])"

text \<open>
  A and B were added to another \<open>Graph\<close>, whose \<open>nodes\<close> is the \<open>Set\<close> at address 0,
  and joined there by \<open>addEdge(A, B)\<close>; this graph, whose \<open>nodes\<close> is the \<open>Set\<close> at
  address 3, has been given A only.
\<close>

definition shared :: "nat state" where
  "shared =
     (let g0 = new_graph [fresh 1 1, fresh 2 2];
          g1 = snd (addVertices g0 [Obj 0, Obj 1]);
          g2 = snd (addEdge g1 (Obj 0) (Obj 1))
      in snd (addVertex (g2\<lparr>nodes_field := 3\<rparr>) (Obj 0)))"

text \<open>
  B was constructed with the \<open>nodes\<close> of the graph as its adjacency set
  (\<open>B = new Node(2, g.nodes)\<close>); then \<open>addVertices([A, B, C])\<close>, \<open>addEdge(A, B)\<close>
  and \<open>addEdge(A, C)\<close>.
\<close>

definition mirror :: "nat state" where
  "mirror =
     (let g0 = new_graph [fresh 1 1, fresh 2 0, fresh 3 2];
          g1 = snd (addVertices g0 [Obj 0, Obj 1, Obj 2]);
          g2 = snd (addEdge g1 (Obj 0) (Obj 1))
      in snd (addEdge g2 (Obj 0) (Obj 2)))"

text \<open>
  A vertex A and an object that is not a \<open>Node\<close> (address 9) were both added;
  \<open>addEdge(A, object)\<close> then put the object into the set of A and threw a \<open>TypeError\<close>.
\<close>

definition stray :: "nat state" where
  "stray =
     (let g0 = new_graph [fresh 1 1];
          g1 = snd (addVertex g0 (Obj 0));
          g2 = snd (addVertex g1 (Obj 9))
      in snd (addEdge g2 (Obj 0) (Obj 9)))"

text \<open>
  The path of \<open>n\<close> vertices with the values 1 to \<open>n\<close>, as \<open>addVertices\<close> and then
  \<open>addEdge\<close> on each pair of neighbours, from the first on, build it (for three
  vertices it is the chain), with room for \<open>room\<close> nested activations of \<open>dfs\<close>.
\<close>

definition path_entries :: "nat \<Rightarrow> nat \<Rightarrow> jsval jsset" where
  "path_entries n i =
     (if i = 0 then [] else [Some (Obj (i - 1))]) @ (if Suc i < n then [Some (Obj (Suc i))] else [])"

definition path_graph :: "nat \<Rightarrow> nat \<Rightarrow> nat state" where
  "path_graph n room =
     \<lparr>objects = map (\<lambda>i. fresh (Suc i) (Suc i)) [0..<n],
      sets = (\<lambda>a. if a = 0 then map (\<lambda>i. Some (Obj i)) [0..<n]
                   else if a \<le> n then path_entries n (a - 1) else []),
      nodes_field = 0, stack_room = room\<rparr>"

section \<open>Properties\<close>

subsection \<open>The example graphs, evaluated\<close>

lemma chain_eval:
  "heap chain = [\<lparr>val = 1, adjacent = [Some (Obj 1)]\<rparr>,
                 \<lparr>val = 2, adjacent = [Some (Obj 0), Some (Obj 2)]\<rparr>,
                 \<lparr>val = 3, adjacent = [Some (Obj 1)]\<rparr>]"
  "nodes chain = [Some (Obj 0), Some (Obj 1), Some (Obj 2)]"
  "stack_room chain = 3000"
  "objects chain = [fresh 1 1, fresh 2 2, fresh 3 3]"
  "nodes_field chain = 0"
  by (simp_all add: chain_def new_graph_def fresh_def addVertex_def addEdge_def set_upd_def
      heap_def nodes_def add_def has_def)


subsection \<open>Sets and edge operations\<close>

lemma has_Nil [simp]: "\<not> has x []"
  by (simp add: has_def)

lemma has_add: "has x (add y s) \<longleftrightarrow> x = y \<or> has x s"
  by (auto simp: has_def add_def)

lemma has_delete: "has x (delete y s) \<longleftrightarrow> x \<noteq> y \<and> has x s"
  by (auto simp: has_def delete_def)

lemma delete_twice: "delete x (delete x s) = delete x s"
  by (simp add: delete_def)

lemma is_node_Obj: "is_node s (Obj i) \<longleftrightarrow> i < length (objects s)"
  by (simp add: is_node_def)

lemma is_node_cases: "is_node s v \<longleftrightarrow> (\<exists>i. v = Obj i \<and> i < length (objects s))"
  by (cases v) (simp_all add: is_node_def)

lemma adjacent_of_Obj:
  "adjacent_of s (Obj i) =
     (if i < length (objects s) then sets s (adjacent_field (objects s ! i)) else [])"
  by (simp add: adjacent_of_def nth_heap)

lemma adjacent_of_not_node: "\<not> is_node s v \<Longrightarrow> adjacent_of s v = []"
  by (simp add: adjacent_of_def is_node_def)

lemma is_node_set_upd [simp]: "is_node (set_upd f a s) v = is_node s v"
  by (simp add: is_node_cases)

lemma unshared_set_upd [simp]: "unshared (set_upd f a s) = unshared s"
  by (simp add: unshared_def)

lemma nodes_set_upd: "nodes (set_upd f a s) = (if a = nodes_field s then f (nodes s) else nodes s)"
  by (simp add: nodes_def sets_set_upd)

lemma unshared_field:
  assumes "unshared s" "i < length (objects s)"
  shows "adjacent_field (objects s ! i) \<noteq> nodes_field s"
    and "j < length (objects s) \<Longrightarrow>
      adjacent_field (objects s ! j) = adjacent_field (objects s ! i) \<longleftrightarrow> j = i"
proof -
  from assms have "adjacent_field (objects s ! i) \<in> set (map adjacent_field (objects s))"
    by (metis length_map nth_map nth_mem)
  with assms(1) show "adjacent_field (objects s ! i) \<noteq> nodes_field s"
    by (auto simp: unshared_def)
  assume j: "j < length (objects s)"
  from assms(1) have d: "distinct (map adjacent_field (objects s))" by (simp add: unshared_def)
  from nth_eq_iff_index_eq [OF d, of j i] j assms(2)
  show "adjacent_field (objects s ! j) = adjacent_field (objects s ! i) \<longleftrightarrow> j = i" by simp
qed

lemma adjacent_upd_Inl: "adjacent_upd f w s = Inl e \<Longrightarrow> \<not> is_node s w"
  by (cases w) (auto simp: is_node_Obj is_node_def split: if_splits)

lemma adjacent_upd_not_node: "\<not> is_node s w \<Longrightarrow> adjacent_upd f w s = Inl TypeError"
  by (cases w) (auto simp: is_node_Obj)

lemma adjacent_upd_Inr:
  assumes "adjacent_upd f w s = Inr s'"
  shows "is_node s w"
    and "is_node s' v = is_node s v"
    and "unshared s' = unshared s"
    and "objects s' = objects s"
    and "unshared s \<Longrightarrow> nodes s' = nodes s"
    and "unshared s \<Longrightarrow> adjacent_of s' v = (if v = w then f (adjacent_of s v) else adjacent_of s v)"
    and "nodes_field s' = nodes_field s"
    and "stack_room s' = stack_room s"
proof -
  from assms obtain i where w: "w = Obj i" and i: "i < length (objects s)"
    and s': "s' = set_upd f (adjacent_field (objects s ! i)) s"
    by (cases w) (auto split: if_splits)
  show "is_node s w" by (simp add: w i is_node_Obj)
  show "is_node s' v = is_node s v" by (simp add: s')
  show "unshared s' = unshared s" by (simp add: s')
  show "objects s' = objects s" by (simp add: s')
  show "nodes_field s' = nodes_field s" by (simp add: s')
  show "stack_room s' = stack_room s" by (simp add: s')
  show "nodes s' = nodes s" if "unshared s"
    using unshared_field(1) [OF that i] by (simp add: s' nodes_set_upd)
  show "adjacent_of s' v = (if v = w then f (adjacent_of s v) else adjacent_of s v)"
    if u: "unshared s"
  proof (cases v)
    case (Obj j)
    show ?thesis
    proof (cases "j < length (objects s)")
      case True
      from unshared_field(2) [OF u i True] True i show ?thesis
        by (simp add: Obj w s' adjacent_of_Obj sets_set_upd)
    next
      case False
      with i show ?thesis by (auto simp: Obj w s' adjacent_of_Obj)
    qed
  qed (simp_all add: w adjacent_of_def)
qed

lemma addEdge_frame:
  "is_node (snd (addEdge s v1 v2)) v = is_node s v"
  "unshared (snd (addEdge s v1 v2)) = unshared s"
  "objects (snd (addEdge s v1 v2)) = objects s"
  "nodes_field (snd (addEdge s v1 v2)) = nodes_field s"
  "stack_room (snd (addEdge s v1 v2)) = stack_room s"
  by (auto simp: addEdge_def adjacent_upd_Inr split: sum.splits)

lemma addEdge_nodes: "unshared s \<Longrightarrow> nodes (snd (addEdge s v1 v2)) = nodes s"
  by (auto simp: addEdge_def adjacent_upd_Inr split: sum.splits)

lemma addEdge_has:
  assumes u: "unshared s"
  shows "has x (adjacent_of (snd (addEdge s v1 v2)) u')
    \<longleftrightarrow> has x (adjacent_of s u') \<or> joins s v1 v2 u' x"
proof (cases "\<not> has v1 (nodes s) \<or> \<not> has v2 (nodes s)")
  case True
  then show ?thesis by (auto simp: addEdge_def joins_def)
next
  case mem: False
  show ?thesis
  proof (cases "adjacent_upd (add v2) v1 s")
    case (Inl e)
    then have "\<not> is_node s v1" by (rule adjacent_upd_Inl)
    with mem show ?thesis by (simp add: addEdge_def Inl joins_def)
  next
    case s1: (Inr s1)
    note u1 = adjacent_upd_Inr [OF s1]
    have us1: "unshared s1" using u by (simp add: u1(3))
    show ?thesis
    proof (cases "adjacent_upd (add v1) v2 s1")
      case (Inl e)
      then have "\<not> is_node s v2" using adjacent_upd_Inl [OF Inl] by (simp add: u1(2))
      with mem u1(1) show ?thesis
        by (auto simp: addEdge_def Inl s1 joins_def u1(6) [OF u] has_add)
    next
      case s2: (Inr s2)
      note u2 = adjacent_upd_Inr [OF s2]
      from u2(1) have "is_node s v2" by (simp add: u1(2))
      with mem u1(1) show ?thesis
        by (auto simp: addEdge_def s1 s2 joins_def u1(6) [OF u] u2(6) [OF us1] has_add)
    qed
  qed
qed

lemma removeEdge_frame:
  "is_node (snd (removeEdge s v1 v2)) v = is_node s v"
  "unshared (snd (removeEdge s v1 v2)) = unshared s"
  "objects (snd (removeEdge s v1 v2)) = objects s"
  "nodes_field (snd (removeEdge s v1 v2)) = nodes_field s"
  "stack_room (snd (removeEdge s v1 v2)) = stack_room s"
  by (auto simp: removeEdge_def adjacent_upd_Inr split: sum.splits)

lemma removeEdge_nodes: "unshared s \<Longrightarrow> nodes (snd (removeEdge s v1 v2)) = nodes s"
  by (auto simp: removeEdge_def adjacent_upd_Inr split: sum.splits)

lemma removeEdge_has:
  assumes u: "unshared s"
  shows "has x (adjacent_of (snd (removeEdge s v1 v2)) u')
    \<longleftrightarrow> has x (adjacent_of s u') \<and> \<not> joins s v1 v2 u' x"
proof (cases "\<not> has v1 (nodes s) \<or> \<not> has v2 (nodes s)")
  case True
  then show ?thesis by (auto simp: removeEdge_def joins_def)
next
  case mem: False
  show ?thesis
  proof (cases "adjacent_upd (delete v2) v1 s")
    case (Inl e)
    then have "\<not> is_node s v1" by (rule adjacent_upd_Inl)
    with mem show ?thesis by (simp add: removeEdge_def Inl joins_def)
  next
    case s1: (Inr s1)
    note u1 = adjacent_upd_Inr [OF s1]
    have us1: "unshared s1" using u by (simp add: u1(3))
    show ?thesis
    proof (cases "adjacent_upd (delete v1) v2 s1")
      case (Inl e)
      then have "\<not> is_node s v2" using adjacent_upd_Inl [OF Inl] by (simp add: u1(2))
      with mem u1(1) show ?thesis
        by (auto simp: removeEdge_def Inl s1 joins_def u1(6) [OF u] has_delete)
    next
      case s2: (Inr s2)
      note u2 = adjacent_upd_Inr [OF s2]
      from u2(1) have "is_node s v2" by (simp add: u1(2))
      with mem u1(1) show ?thesis
        by (auto simp: removeEdge_def s1 s2 joins_def u1(6) [OF u] u2(6) [OF us1] has_delete)
    qed
  qed
qed

lemma removeEdge_ok:
  "fst (removeEdge s v1 v2) = None \<longleftrightarrow>
     \<not> has v1 (nodes s) \<or> \<not> has v2 (nodes s) \<or> is_node s v1 \<and> is_node s v2"
proof (cases "adjacent_upd (delete v2) v1 s")
  case (Inl e)
  then have "\<not> is_node s v1" by (rule adjacent_upd_Inl)
  then show ?thesis by (simp add: removeEdge_def Inl)
next
  case s1: (Inr s1)
  note u1 = adjacent_upd_Inr [OF s1]
  show ?thesis
  proof (cases "adjacent_upd (delete v1) v2 s1")
    case (Inl e)
    then have "\<not> is_node s v2" using adjacent_upd_Inl [OF Inl] by (simp add: u1(2))
    then show ?thesis by (simp add: removeEdge_def Inl s1)
  next
    case s2: (Inr s2)
    from adjacent_upd_Inr(1) [OF s2] have "is_node s v2" by (simp add: u1(2))
    with u1(1) show ?thesis by (simp add: removeEdge_def s1 s2)
  qed
qed

lemma addEdge_ok:
  "fst (addEdge s v1 v2) = None \<longleftrightarrow>
     \<not> has v1 (nodes s) \<or> \<not> has v2 (nodes s) \<or> is_node s v1 \<and> is_node s v2"
proof (cases "adjacent_upd (add v2) v1 s")
  case (Inl e)
  then have "\<not> is_node s v1" by (rule adjacent_upd_Inl)
  then show ?thesis by (simp add: addEdge_def Inl)
next
  case s1: (Inr s1)
  note u1 = adjacent_upd_Inr [OF s1]
  show ?thesis
  proof (cases "adjacent_upd (add v1) v2 s1")
    case (Inl e)
    then have "\<not> is_node s v2" using adjacent_upd_Inl [OF Inl] by (simp add: u1(2))
    then show ?thesis by (simp add: addEdge_def Inl s1)
  next
    case s2: (Inr s2)
    from adjacent_upd_Inr(1) [OF s2] have "is_node s v2" by (simp add: u1(2))
    with u1(1) show ?thesis by (simp add: addEdge_def s1 s2)
  qed
qed

lemma removeEdge_adjacent_self:
  assumes "unshared s" "has v (nodes s)" "has w (nodes s)" "is_node s v" "is_node s w"
  shows "adjacent_of (snd (removeEdge s v w)) v = delete w (adjacent_of s v)"
proof -
  from assms(4) obtain s1 where s1: "adjacent_upd (delete w) v s = Inr s1"
    by (cases "adjacent_upd (delete w) v s") (auto dest: adjacent_upd_Inl)
  note u1 = adjacent_upd_Inr [OF s1]
  have us1: "unshared s1" using assms(1) by (simp add: u1(3))
  from assms(5) have "is_node s1 w" by (simp add: u1(2))
  then obtain s2 where s2: "adjacent_upd (delete v) w s1 = Inr s2"
    by (cases "adjacent_upd (delete v) w s1") (auto dest: adjacent_upd_Inl)
  note u2 = adjacent_upd_Inr [OF s2]
  from assms(1,2,3) have "snd (removeEdge s v w) = s2"
    by (simp add: removeEdge_def s1 s2)
  then show ?thesis
    by (simp add: u1(6) [OF assms(1)] u2(6) [OF us1] delete_twice)
qed

subsection \<open>The loop of removeVertex\<close>

lemma loop_not_node: "\<not> is_node s v \<Longrightarrow> removeVertex_loop s v i = (Some TypeError, s)"
  by (subst removeVertex_loop.simps) (simp add: is_node_def)

lemma loop_end:
  "is_node s v \<Longrightarrow> \<not> i < length (adjacent_of s v) \<Longrightarrow> removeVertex_loop s v i = (None, s)"
  by (subst removeVertex_loop.simps) (auto simp: is_node_def adjacent_of_def)

lemma loop_skip:
  "is_node s v \<Longrightarrow> i < length (adjacent_of s v) \<Longrightarrow> adjacent_of s v ! i = None
     \<Longrightarrow> removeVertex_loop s v i = removeVertex_loop s v (Suc i)"
  by (subst removeVertex_loop.simps) (auto simp: is_node_def adjacent_of_def)

lemma loop_step:
  "is_node s v \<Longrightarrow> i < length (adjacent_of s v) \<Longrightarrow> adjacent_of s v ! i = Some w
     \<Longrightarrow> fst (removeEdge s v w) = None
     \<Longrightarrow> removeVertex_loop s v i = removeVertex_loop (snd (removeEdge s v w)) v (Suc i)"
  by (subst removeVertex_loop.simps) (auto simp: is_node_def adjacent_of_def split: prod.splits)

lemma loop_throw:
  "is_node s v \<Longrightarrow> i < length (adjacent_of s v) \<Longrightarrow> adjacent_of s v ! i = Some w
     \<Longrightarrow> fst (removeEdge s v w) = Some e
     \<Longrightarrow> removeVertex_loop s v i = removeEdge s v w"
  by (subst removeVertex_loop.simps) (auto simp: is_node_def adjacent_of_def split: prod.splits)

lemma adj_len_adjacent_of: "adj_len s v = length (adjacent_of s v)"
  by (simp add: adj_len_def adjacent_of_def split: option.splits)

lemma pending_0: "pending s v 0 = {w. has w (adjacent_of s v) \<and> has w (nodes s)}"
  by (simp add: pending_def has_def)

lemma pending_end: "\<not> i < length (adjacent_of s v) \<Longrightarrow> pending s v i = {}"
  by (simp add: pending_def)

lemma pending_skip:
  "i < length (adjacent_of s v) \<Longrightarrow> adjacent_of s v ! i = None \<Longrightarrow> pending s v (Suc i) = pending s v i"
  by (auto simp: pending_def Cons_nth_drop_Suc [symmetric])

lemma pending_step:
  "i < length (adjacent_of s v) \<Longrightarrow> adjacent_of s v ! i = Some w
     \<Longrightarrow> pending s v i = pending s v (Suc i) \<union> (if has w (nodes s) then {w} else {})"
  by (auto simp: pending_def Cons_nth_drop_Suc [symmetric])

lemma pending_removeEdge:
  assumes "unshared s" "has v (nodes s)" "has w (nodes s)" "is_node s v" "is_node s w"
  shows "pending (snd (removeEdge s v w)) v k = pending s v k - {w}"
  by (auto simp: pending_def removeEdge_adjacent_self [OF assms] removeEdge_nodes [OF assms(1)]
      delete_def drop_map split: if_splits)

lemma removeVertex_loop_spec:
  assumes "unshared s" "is_node s v" "has v (nodes s)" "\<forall>w\<in>pending s v i. is_node s w"
  shows "fst (removeVertex_loop s v i) = None
     \<and> nodes (snd (removeVertex_loop s v i)) = nodes s
     \<and> unshared (snd (removeVertex_loop s v i))
     \<and> nodes_field (snd (removeVertex_loop s v i)) = nodes_field s
     \<and> (\<forall>u. is_node (snd (removeVertex_loop s v i)) u = is_node s u)
     \<and> (\<forall>u x. has x (adjacent_of (snd (removeVertex_loop s v i)) u)
            \<longleftrightarrow> has x (adjacent_of s u) \<and> \<not> unlinked v (pending s v i) u x)"
  using assms
proof (induction "length (adjacent_of s v) - i" arbitrary: s i)
  case 0
  then have "\<not> i < length (adjacent_of s v)" by simp
  with 0 show ?case by (simp add: loop_end pending_end unlinked_def)
next
  case (Suc k)
  then have i: "i < length (adjacent_of s v)" by simp
  have k: "k = length (adjacent_of s v) - Suc i" using Suc(2) by simp
  show ?case
  proof (cases "adjacent_of s v ! i")
    case None
    from Suc(1) [OF k Suc(3,4,5)] Suc(6) show ?thesis
      by (simp add: pending_skip [OF i None] loop_skip [OF Suc(4) i None])
  next
    case (Some w)
    show ?thesis
    proof (cases "has w (nodes s)")
      case False
      then have r: "removeEdge s v w = (None, s)" by (simp add: removeEdge_def)
      have p: "pending s v (Suc i) = pending s v i"
        using pending_step [OF i Some] False by simp
      from Suc(1) [OF k Suc(3,4,5)] Suc(6) show ?thesis
        using loop_step [OF Suc(4) i Some] by (simp add: r p)
    next
      case True
      with pending_step [OF i Some] have p: "pending s v i = insert w (pending s v (Suc i))"
        by simp
      with Suc(6) have w: "is_node s w" by simp
      let ?s1 = "snd (removeEdge s v w)"
      have ok: "fst (removeEdge s v w) = None" using Suc(4) w by (simp add: removeEdge_ok)
      have p1: "pending ?s1 v (Suc i) = pending s v (Suc i) - {w}"
        by (rule pending_removeEdge [OF Suc(3,5) True Suc(4) w])
      have len: "k = length (adjacent_of ?s1 v) - Suc i"
        using Suc(2) by (simp add: removeEdge_adjacent_self [OF Suc(3,5) True Suc(4) w] delete_len)
      have pre: "unshared ?s1" "is_node ?s1 v" "has v (nodes ?s1)"
        "\<forall>y\<in>pending ?s1 v (Suc i). is_node ?s1 y"
        using Suc(3,4,5,6) by (simp_all add: removeEdge_frame removeEdge_nodes p p1)
      have f: "nodes_field ?s1 = nodes_field s" by (rule removeEdge_frame)
      have j: "joins s v w u x \<longleftrightarrow> u = v \<and> x = w \<or> u = w \<and> x = v" for u x
        using Suc(4,5) True w by (auto simp: joins_def)
      have "unlinked v (pending s v i) u x
          \<longleftrightarrow> joins s v w u x \<or> unlinked v (pending ?s1 v (Suc i)) u x" for u x
        by (auto simp: unlinked_def p p1 j)
      with Suc(1) [OF len pre] f show ?thesis
        by (simp add: loop_step [OF Suc(4) i Some ok] removeEdge_frame
            removeEdge_nodes [OF Suc(3)] removeEdge_has [OF Suc(3)])
    qed
  qed
qed

subsection \<open>Symmetry, step by step\<close>

lemma symmetric_has:
  "symmetric s \<longleftrightarrow> (\<forall>u v. has u (nodes s) \<longrightarrow> has v (nodes s) \<longrightarrow> sym_pair s u v)"
  by (auto simp: symmetric_def has_elems)

lemma joins_sym: "is_node s u \<Longrightarrow> is_node s x \<Longrightarrow> joins s v1 v2 u x = joins s v1 v2 x u"
  by (auto simp: joins_def)

lemma addEdge_symmetric:
  "unshared s \<Longrightarrow> symmetric s \<Longrightarrow> symmetric (snd (addEdge s v1 v2))"
  unfolding symmetric_has sym_pair_def
  by (simp add: addEdge_frame addEdge_nodes addEdge_has) (metis joins_sym)

lemma removeEdge_symmetric:
  "unshared s \<Longrightarrow> symmetric s \<Longrightarrow> symmetric (snd (removeEdge s v1 v2))"
  unfolding symmetric_has sym_pair_def
  by (simp add: removeEdge_frame removeEdge_nodes removeEdge_has) (metis joins_sym)

lemma removeVertex_loop_symmetric:
  "unshared s \<Longrightarrow> symmetric s \<Longrightarrow>
     symmetric (snd (removeVertex_loop s v i)) \<and> unshared (snd (removeVertex_loop s v i))"
proof (induction "length (adjacent_of s v) - i" arbitrary: s i)
  case 0
  then show ?case
    by (cases "is_node s v") (simp_all add: loop_end loop_not_node)
next
  case (Suc k)
  then have i: "i < length (adjacent_of s v)" by simp
  then have v: "is_node s v" by (auto simp: is_node_def adjacent_of_def split: option.splits)
  have k: "k = length (adjacent_of s v) - Suc i" using Suc(2) by simp
  show ?case
  proof (cases "adjacent_of s v ! i")
    case None
    from Suc(1) [OF k Suc(3,4)] show ?thesis by (simp add: loop_skip [OF v i None])
  next
    case (Some w)
    let ?s1 = "snd (removeEdge s v w)"
    have s1: "symmetric ?s1" by (rule removeEdge_symmetric [OF Suc(3,4)])
    have u1: "unshared ?s1" using Suc(3) by (simp add: removeEdge_frame)
    show ?thesis
    proof (cases "fst (removeEdge s v w)")
      case None
      have "length (adjacent_of ?s1 v) = length (adjacent_of s v)"
        using removeEdge_len [of s v w v] by (simp add: adj_len_adjacent_of)
      with k have "k = length (adjacent_of ?s1 v) - Suc i" by simp
      from Suc(1) [OF this u1 s1] show ?thesis by (simp add: loop_step [OF v i Some None])
    next
      case (Some e)
      with s1 u1 show ?thesis
        by (simp add: loop_throw [OF v i \<open>adjacent_of s v ! i = Some w\<close> Some])
    qed
  qed
qed

lemma nodes_upd:
  assumes "unshared s"
  shows "nodes (set_upd f (nodes_field s) s) = f (nodes s)"
    and "adjacent_of (set_upd f (nodes_field s) s) v = adjacent_of s v"
proof -
  show "nodes (set_upd f (nodes_field s) s) = f (nodes s)" by (simp add: nodes_set_upd)
  show "adjacent_of (set_upd f (nodes_field s) s) v = adjacent_of s v"
  proof (cases v)
    case (Obj i)
    show ?thesis
      using unshared_field(1) [OF assms, of i]
      by (auto simp: Obj adjacent_of_Obj sets_set_upd)
  qed (simp_all add: adjacent_of_def)
qed

lemma sym_pair_nodes_upd:
  "unshared s \<Longrightarrow> sym_pair (set_upd f (nodes_field s) s) u v = sym_pair s u v"
  by (simp add: sym_pair_def nodes_upd)

lemma symmetric_fewer:
  "unshared s \<Longrightarrow> symmetric s \<Longrightarrow> \<forall>x. has x (f (nodes s)) \<longrightarrow> has x (nodes s)
     \<Longrightarrow> symmetric (set_upd f (nodes_field s) s)"
  by (simp add: symmetric_has sym_pair_nodes_upd nodes_upd)

lemma removeVertex_symmetric:
  assumes "unshared s" "symmetric s"
  shows "symmetric (snd (removeVertex s v))"
proof (cases "has v (nodes s)")
  case True
  from removeVertex_loop_symmetric [OF assms]
  have l: "symmetric (snd (removeVertex_loop s v 0))" "unshared (snd (removeVertex_loop s v 0))"
    by simp_all
  show ?thesis
  proof (cases "removeVertex_loop s v 0")
    case (Pair e s')
    with l have s': "symmetric s'" "unshared s'" by simp_all
    have "symmetric (set_upd (delete v) (nodes_field s') s')"
      by (rule symmetric_fewer [OF s'(2,1)]) (simp add: has_delete)
    with s' True Pair show ?thesis
      by (cases e) (simp_all add: removeVertex_def)
  qed
qed (use assms in \<open>simp add: removeVertex_def\<close>)

lemma addVertices_spec:
  "unshared s \<Longrightarrow>
     (has x (nodes (snd (addVertices s vs))) \<longleftrightarrow> has x (nodes s) \<or> x \<in> set vs)
     \<and> adjacent_of (snd (addVertices s vs)) u = adjacent_of s u
     \<and> is_node (snd (addVertices s vs)) u = is_node s u"
proof (induction vs arbitrary: s)
  case Nil
  show ?case by simp
next
  case (Cons v vs)
  have "unshared (set_upd (add v) (nodes_field s) s)" using Cons.prems by simp
  from Cons.IH [OF this] Cons.prems show ?case
    by (simp add: nodes_upd has_add) blast
qed

lemma sym_pair_commute: "sym_pair s u v = sym_pair s v u"
  by (auto simp: sym_pair_def)

lemma sym_pair_refl: "sym_pair s v v"
  by (simp add: sym_pair_def)

subsection \<open>Removing a vertex, as a whole\<close>

lemma removeVertex_spec:
  assumes "unshared s" "has v (nodes s)" "is_node s v"
    and "\<forall>w. has w (adjacent_of s v) \<and> has w (nodes s) \<longrightarrow> is_node s w"
  shows "fst (removeVertex s v) = None"
    and "nodes (snd (removeVertex s v)) = delete v (nodes s)"
    and "is_node (snd (removeVertex s v)) u = is_node s u"
    and "has x (adjacent_of (snd (removeVertex s v)) u)
          \<longleftrightarrow> has x (adjacent_of s u) \<and> \<not> unlinked v (pending s v 0) u x"
proof -
  from assms(4) have "\<forall>w\<in>pending s v 0. is_node s w" by (simp add: pending_0)
  note l = removeVertex_loop_spec [OF assms(1,3,2) this]
  obtain s' where s': "removeVertex_loop s v 0 = (None, s')"
    using l by (cases "removeVertex_loop s v 0") simp
  with assms(2) have r: "removeVertex s v = (None, set_upd (delete v) (nodes_field s') s')"
    by (simp add: removeVertex_def)
  from l have u': "unshared s'" by (simp add: s')
  from l have l': "nodes s' = nodes s" "\<And>u. is_node s' u = is_node s u"
    "\<And>u x. has x (adjacent_of s' u)
        \<longleftrightarrow> has x (adjacent_of s u) \<and> \<not> unlinked v (pending s v 0) u x"
    by (simp_all add: s')
  have n: "nodes (snd (removeVertex s v)) = delete v (nodes s')"
    and a: "adjacent_of (snd (removeVertex s v)) u = adjacent_of s' u"
    and i: "is_node (snd (removeVertex s v)) u = is_node s' u"
    unfolding r snd_conv by (simp_all only: nodes_upd [OF u'] is_node_set_upd)
  show "fst (removeVertex s v) = None" by (simp add: r)
  show "nodes (snd (removeVertex s v)) = delete v (nodes s)" by (simp only: n l')
  show "is_node (snd (removeVertex s v)) u = is_node s u" by (simp only: i l')
  show "has x (adjacent_of (snd (removeVertex s v)) u)
          \<longleftrightarrow> has x (adjacent_of s u) \<and> \<not> unlinked v (pending s v 0) u x"
    by (simp only: a l')
qed

lemma vertices_only_has: "vertices_only s \<Longrightarrow> has v (nodes s) \<Longrightarrow> is_node s v"
  by (simp add: vertices_only_def has_elems)

subsection \<open>What the traversals record\<close>

lemma elems_add: "elems (add x s) = (if has x s then elems s else elems s @ [x])"
  by (simp add: add_def elems_append)

lemma value_of_node: "node_of h v = Some n \<Longrightarrow> value_of h v = Some (val n)"
  by (simp add: value_of_def)

lemma trace_ok_push:
  assumes "trace_ok h start (visited, result)" "reaches h start v" "\<not> has v visited"
    "node_of h v = Some n"
  shows "trace_ok h start (add v visited, result @ [val n])"
  using assms by (simp add: trace_ok_def elems_add has_elems value_of_def)

lemma dfs_trace:
  "dfs h room v st = Inr st' \<Longrightarrow> trace_ok h start st \<Longrightarrow> reaches h start v
     \<Longrightarrow> \<not> has v (fst st) \<Longrightarrow> trace_ok h start st'"
  "dfs_forEach h room ns st2 = Inr st2' \<Longrightarrow> trace_ok h start st2
     \<Longrightarrow> \<forall>n\<in>set ns. reaches h start n \<Longrightarrow> trace_ok h start st2'"
proof (induction h room v st and h room ns st2 arbitrary: st' and st2' rule: dfs_dfs_forEach.induct)
  case (1 h room vertex visited result)
  show ?case
  proof (cases "falsy vertex")
    case True
    with 1(2,3) show ?thesis by simp
  next
    case False
    with 1(2) obtain n where n: "node_of h vertex = Some n"
      and r: "dfs_forEach h room (elems (adjacent n)) (add vertex visited, result @ [val n]) = Inr st'"
      by (auto split: option.splits)
    have t: "trace_ok h start (add vertex visited, result @ [val n])"
      using 1(3,4,5) n by (simp add: trace_ok_push)
    have "\<forall>w\<in>set (elems (adjacent n)). reaches h start w"
      using 1(4) n by (auto simp: has_elems [symmetric] intro: reaches.link)
    with 1(1) [OF False n r t] show ?thesis .
  qed
next
  case (2 h room st)
  then show ?case by simp
next
  case (3 h room neighbor rest visited result)
  show ?case
  proof (cases "has neighbor visited")
    case True
    with 3(4) have "dfs_forEach h room rest (visited, result) = Inr st2'" by simp
    with 3(3) [OF _ this 3(5)] True 3(6) show ?thesis by simp
  next
    case False
    with 3(4) have room: "room \<noteq> 0" by (auto split: if_splits)
    with False 3(4) obtain st1 where a: "dfs h (room - 1) neighbor (visited, result) = Inr st1"
      and b: "dfs_forEach h room rest st1 = Inr st2'"
      by (auto split: sum.splits)
    have "trace_ok h start st1"
      using 3(1) [OF False room a 3(5)] 3(6) False by simp
    with 3(2) [OF False room a b] 3(6) show ?thesis by simp
  qed
qed

lemma bfs_forEach_trace:
  "bfs_forEach ns (visited, queue) = (visited', queue') \<Longrightarrow>
     \<exists>new. elems visited' = elems visited @ new \<and> queue' = queue @ new \<and> set new \<subseteq> set ns
       \<and> (distinct (elems visited) \<longrightarrow> distinct (elems visited'))"
proof (induction ns arbitrary: visited queue)
  case Nil
  then show ?case by simp
next
  case (Cons n ns)
  show ?case
  proof (cases "has n visited")
    case True
    with Cons.prems have "bfs_forEach ns (visited, queue) = (visited', queue')" by simp
    from Cons.IH [OF this] show ?thesis by auto
  next
    case False
    with Cons.prems have "bfs_forEach ns (add n visited, queue @ [n]) = (visited', queue')"
      by simp
    from Cons.IH [OF this] obtain new where
      new: "elems visited' = elems (add n visited) @ new" "queue' = (queue @ [n]) @ new"
        "set new \<subseteq> set ns" "distinct (elems (add n visited)) \<longrightarrow> distinct (elems visited')"
      by blast
    have "elems visited' = elems visited @ (n # new)" "queue' = queue @ (n # new)"
      "set (n # new) \<subseteq> set (n # ns)" "distinct (elems visited) \<longrightarrow> distinct (elems visited')"
      using new False by (auto simp: elems_add has_elems)
    then show ?thesis by blast
  qed
qed

lemma bfs_while_trace:
  "bfs_while h queue result visited = Inr st' \<Longrightarrow> elems visited = seen @ queue
     \<Longrightarrow> distinct (elems visited) \<Longrightarrow> map (value_of h) seen = map Some result
     \<Longrightarrow> \<forall>v\<in>set (elems visited). reaches h start v
     \<Longrightarrow> trace_ok h start st'"
proof (induction h queue result visited arbitrary: seen rule: bfs_while.induct)
  case (1 h result visited)
  then show ?case by (auto simp: trace_ok_def)
next
  case (2 h vertex queue result visited)
  from 2(2) obtain n where n: "node_of h vertex = Some n"
    by (auto split: option.splits)
  obtain visited1 queue1 where f: "bfs_forEach (elems (adjacent n)) (visited, queue) = (visited1, queue1)"
    by (cases "bfs_forEach (elems (adjacent n)) (visited, queue)")
  with 2(2) n have r: "bfs_while h queue1 (result @ [val n]) visited1 = Inr st'" by simp
  from bfs_forEach_trace [OF f] obtain new where
    new: "elems visited1 = elems visited @ new" "queue1 = queue @ new"
      "set new \<subseteq> set (elems (adjacent n))" "distinct (elems visited) \<longrightarrow> distinct (elems visited1)"
    by blast
  have a: "elems visited1 = (seen @ [vertex]) @ queue1" using new(1,2) 2(3) by simp
  have b: "distinct (elems visited1)" using new(4) 2(4) by simp
  have c: "map (value_of h) (seen @ [vertex]) = map Some (result @ [val n])"
    using 2(5) n by (simp add: value_of_node)
  have "reaches h start vertex" using 2(3,6) by simp
  then have "\<forall>w\<in>set (elems (adjacent n)). reaches h start w"
    using n by (auto simp: has_elems [symmetric] intro: reaches.link)
  with new(1,3) 2(6) have d: "\<forall>v\<in>set (elems visited1). reaches h start v" by auto
  from 2(1) [OF n f [symmetric] r a b c d] show ?case .
qed

lemma dfs_start_trace:
  assumes "dfs h room start ([], []) = Inr (visited, result)"
  shows "trace_ok h start (visited, result)"
  by (rule dfs_trace(1) [OF assms]) (simp_all add: trace_ok_def reaches.start)

lemma bfs_start_trace:
  assumes "bfs_while h [start] [] (add start []) = Inr (visited, result)"
  shows "trace_ok h start (visited, result)"
  by (rule bfs_while_trace [OF assms, of "[]"]) (simp_all add: add_def reaches.start)

subsection \<open>Room enough for the recursion\<close>

lemma dfs_mono:
  "dfs h room v st = Inr st' \<Longrightarrow> set (elems (fst st)) \<subseteq> set (elems (fst st'))"
  "dfs_forEach h room ns st2 = Inr st2' \<Longrightarrow> set (elems (fst st2)) \<subseteq> set (elems (fst st2'))"
proof (induction h room v st and h room ns st2 arbitrary: st' and st2' rule: dfs_dfs_forEach.induct)
  case (1 h room vertex visited result)
  show ?case
  proof (cases "falsy vertex")
    case True
    with 1(2) show ?thesis by simp
  next
    case False
    with 1(2) obtain n where n: "node_of h vertex = Some n"
      and r: "dfs_forEach h room (elems (adjacent n)) (add vertex visited, result @ [val n]) = Inr st'"
      by (auto split: option.splits)
    from 1(1) [OF False n r] show ?thesis by (auto simp: set_elems_add)
  qed
next
  case (2 h room st)
  then show ?case by simp
next
  case (3 h room neighbor rest visited result)
  show ?case
  proof (cases "has neighbor visited")
    case True
    with 3(4) have "dfs_forEach h room rest (visited, result) = Inr st2'" by simp
    with 3(3) True show ?thesis by simp
  next
    case False
    with 3(4) have room: "room \<noteq> 0" by (auto split: if_splits)
    with False 3(4) obtain st1 where a: "dfs h (room - 1) neighbor (visited, result) = Inr st1"
      and b: "dfs_forEach h room rest st1 = Inr st2'"
      by (auto split: sum.splits)
    from 3(1) [OF False room a] have "set (elems visited) \<subseteq> set (elems (fst st1))" by simp
    moreover from 3(2) [OF False room a b] have "set (elems (fst st1)) \<subseteq> set (elems (fst st2'))" .
    ultimately show ?thesis by auto
  qed
qed

lemma unvisited_Nil: "unvisited h [] = length h"
  by (simp add: unvisited_def card_image inj_on_def)

lemma unvisited_mono:
  "set (elems visited) \<subseteq> set (elems visited') \<Longrightarrow> unvisited h visited' \<le> unvisited h visited"
  unfolding unvisited_def by (intro card_mono) auto

lemma node_of_Some_iff: "node_of h v \<noteq> None \<longleftrightarrow> v \<in> Obj ` {i. i < length h}"
  by (cases v) auto

lemma unvisited_add:
  assumes "node_of h v \<noteq> None" "\<not> has v visited"
  shows "Suc (unvisited h (add v visited)) = unvisited h visited"
proof -
  let ?A = "Obj ` {i. i < length h} - set (elems visited)"
  from assms(1) have "v \<in> Obj ` {i. i < length h}" by (simp only: node_of_Some_iff)
  with assms(2) have v: "v \<in> ?A" by (simp add: has_elems)
  have f: "finite ?A" by simp
  have "Obj ` {i. i < length h} - set (elems (add v visited)) = ?A - {v}"
    by (auto simp: set_elems_add)
  then have a: "unvisited h (add v visited) = card (?A - {v})" by (simp only: unvisited_def)
  have "card ?A = Suc (card (?A - {v}))" by (rule card.remove [OF f v])
  with a show ?thesis by (simp only: unvisited_def)
qed

lemma node_of_closed:
  assumes "closed_heap h" "node_of h v = Some n"
  shows "\<forall>w\<in>set (elems (adjacent n)). node_of h w \<noteq> None"
proof -
  from assms(2) have "n \<in> set h" by (cases v) (auto split: if_splits)
  with assms(1) show ?thesis by (simp add: closed_heap_def)
qed

lemma dfs_enough_room:
  "closed_heap h \<Longrightarrow> node_of h v \<noteq> None \<Longrightarrow> \<not> has v (fst st)
     \<Longrightarrow> unvisited h (fst st) \<le> Suc room \<Longrightarrow> \<exists>st'. dfs h room v st = Inr st'"
  "closed_heap h \<Longrightarrow> \<forall>n\<in>set ns. node_of h n \<noteq> None
     \<Longrightarrow> unvisited h (fst st2) \<le> room \<Longrightarrow> \<exists>st2'. dfs_forEach h room ns st2 = Inr st2'"
proof (induction h room v st and h room ns st2 rule: dfs_dfs_forEach.induct)
  case (1 h room vertex visited result)
  from 1(3) obtain n where n: "node_of h vertex = Some n" by auto
  then have nf: "\<not> falsy vertex" by (cases vertex) simp_all
  have nb: "\<forall>w\<in>set (elems (adjacent n)). node_of h w \<noteq> None"
    by (rule node_of_closed [OF 1(2) n])
  from unvisited_add [OF 1(3), of visited] 1(4,5)
  have "unvisited h (fst (add vertex visited, result @ [val n])) \<le> room" by simp
  from 1(1) [OF nf n 1(2) nb this] nf n show ?case by simp
next
  case (2 h room st)
  show ?case by simp
next
  case (3 h room neighbor rest visited result)
  from 3(5) have nb: "node_of h neighbor \<noteq> None"
    and rest: "\<forall>n\<in>set rest. node_of h n \<noteq> None" by simp_all
  show ?case
  proof (cases "has neighbor visited")
    case True
    with 3(3) [OF _ 3(4) rest] 3(6) show ?thesis by simp
  next
    case False
    from unvisited_add [OF nb False] 3(6) have room: "room \<noteq> 0" by auto
    with 3(6) have "unvisited h (fst (visited, result)) \<le> Suc (room - 1)" by simp
    from 3(1) [OF False room 3(4) nb _ this] False
    obtain st1 where a: "dfs h (room - 1) neighbor (visited, result) = Inr st1" by auto
    from dfs_mono(1) [OF a] have "unvisited h (fst st1) \<le> unvisited h visited"
      by (simp add: unvisited_mono)
    with 3(6) have "unvisited h (fst st1) \<le> room" by simp
    from 3(2) [OF False room a 3(4) rest this] a False room show ?thesis by simp
  qed
qed

lemma bfs_while_returns:
  "closed_heap h \<Longrightarrow> \<forall>v\<in>set queue. node_of h v \<noteq> None
     \<Longrightarrow> \<exists>st'. bfs_while h queue result visited = Inr st'"
proof (induction h queue result visited rule: bfs_while.induct)
  case (1 h result visited)
  show ?case by simp
next
  case (2 h vertex queue result visited)
  from 2(3) obtain n where n: "node_of h vertex = Some n" by auto
  have nb: "\<forall>w\<in>set (elems (adjacent n)). node_of h w \<noteq> None"
    by (rule node_of_closed [OF 2(2) n])
  obtain visited1 queue1 where f: "bfs_forEach (elems (adjacent n)) (visited, queue) = (visited1, queue1)"
    by (cases "bfs_forEach (elems (adjacent n)) (visited, queue)")
  from bfs_forEach_trace [OF f] obtain new where
    "queue1 = queue @ new" "set new \<subseteq> set (elems (adjacent n))"
    by blast
  with nb 2(3) have "\<forall>v\<in>set queue1. node_of h v \<noteq> None"
    by (simp add: subset_iff) blast
  from 2(1) [OF n f [symmetric] 2(2) this] n f show ?case by simp
qed


subsection \<open>Too little room on a path\<close>

lemma path_heap:
  "length (heap (path_graph n room)) = n"
  "i < n \<Longrightarrow> node_of (heap (path_graph n room)) (Obj i) = Some \<lparr>val = Suc i, adjacent = path_entries n i\<rparr>"
  by (simp_all add: path_graph_def heap_def fresh_def)

lemma path_is_chain:
  "heap (path_graph 3 3000) = heap chain \<and> nodes (path_graph 3 3000) = nodes chain"
proof -
  have u: "[0..<3] = [0, 1, 2::nat]" by (simp add: numeral_3_eq_3)
  have "heap (path_graph 3 3000) = [\<lparr>val = 1, adjacent = [Some (Obj 1)]\<rparr>,
      \<lparr>val = 2, adjacent = [Some (Obj 0), Some (Obj 2)]\<rparr>,
      \<lparr>val = 3, adjacent = [Some (Obj 1)]\<rparr>]"
    by (simp add: path_graph_def path_entries_def heap_def fresh_def u)
  moreover have "nodes (path_graph 3 3000) = [Some (Obj 0), Some (Obj 1), Some (Obj 2)]"
    by (simp add: path_graph_def nodes_def u)
  ultimately show ?thesis by (simp only: chain_eval simp_thms)
qed

lemma path_step:
  assumes "Suc i < n" "has (Obj (i - 1)) vis \<or> i = 0" "\<not> has (Obj (Suc i)) vis"
  shows "dfs_forEach h room (elems (path_entries n i)) (vis, res) =
    (if room = 0 then Inl RangeError
     else case dfs h (room - 1) (Obj (Suc i)) (vis, res) of
            Inl e \<Rightarrow> Inl e
          | Inr st' \<Rightarrow> Inr st')"
  using assms by (auto simp del: dfs.simps simp: path_entries_def split: sum.splits)

lemma path_visited:
  assumes a: "\<forall>j. has (Obj j) visited \<longleftrightarrow> j < i"
  shows "has (Obj (i - 1)) (add (Obj i) visited) \<or> i = 0"
    and "\<not> has (Obj (Suc i)) (add (Obj i) visited)"
    and "\<forall>j. has (Obj j) (add (Obj i) visited) \<longleftrightarrow> j < Suc i"
proof -
  from a have 1: "has (Obj (i - 1)) visited \<longleftrightarrow> i - 1 < i" and 2: "\<not> has (Obj (Suc i)) visited"
    by simp_all
  from 1 show "has (Obj (i - 1)) (add (Obj i) visited) \<or> i = 0"
    by (cases i) (simp_all add: has_add)
  from 2 show "\<not> has (Obj (Suc i)) (add (Obj i) visited)"
    by (simp add: has_add)
  show "\<forall>j. has (Obj j) (add (Obj i) visited) \<longleftrightarrow> j < Suc i"
  proof
    fix j
    from a have "has (Obj j) visited \<longleftrightarrow> j < i" by simp
    then show "has (Obj j) (add (Obj i) visited) \<longleftrightarrow> j < Suc i"
      by (simp add: has_add less_Suc_eq) blast
  qed
qed

lemma path_enter:
  assumes "i < n"
  shows "dfs (heap (path_graph n r)) room (Obj i) (visited, result)
    = dfs_forEach (heap (path_graph n r)) room (elems (path_entries n i))
        (add (Obj i) visited, result @ [Suc i])"
  by (subst dfs.simps) (simp del: dfs.simps node_of.simps add: path_heap(2) [OF assms])

lemma dfs_path_overflow:
  assumes "Suc (i + room) < n" and "\<forall>j. has (Obj j) visited \<longleftrightarrow> j < i"
  shows "dfs (heap (path_graph n r)) room (Obj i) (visited, result) = Inl RangeError"
  using assms
proof (induction room arbitrary: i visited result)
  case 0
  from 0(1) have i: "i < n" "Suc i < n" by simp_all
  note v = path_visited [OF 0(2)]
  show ?case
    by (simp only: path_enter [OF i(1)] path_step [OF i(2) v(1,2)] refl if_True)
next
  case (Suc room)
  from Suc(2) have i: "i < n" "Suc i < n" by simp_all
  note v = path_visited [OF Suc(3)]
  from Suc(2) have "Suc (Suc i + room) < n" by simp
  from Suc(1) [OF this v(3)]
  have r: "dfs (heap (path_graph n r)) (Suc room - 1) (Obj (Suc i))
      (add (Obj i) visited, result @ [Suc i]) = Inl RangeError"
    by (simp only: diff_Suc_1)
  show ?case
    by (simp only: path_enter [OF i(1)] path_step [OF i(2) v(1,2)] r nat.simps if_False sum.case)
qed

subsection \<open>More example graphs, evaluated\<close>

lemmas run_defs = new_graph_def fresh_def addVertex_def addEdge_def removeEdge_def
  removeVertex_def removeVertex_loop.simps set_upd_def heap_def nodes_def adjacent_of_def
  add_def has_def delete_def

lemma chain_sets:
  "sets chain 0 = [Some (Obj 0), Some (Obj 1), Some (Obj 2)]"
  "sets chain 1 = [Some (Obj 1)]"
  "sets chain 2 = [Some (Obj 0), Some (Obj 2)]"
  "sets chain 3 = [Some (Obj 1)]"
  by (simp_all add: chain_def run_defs)

lemma spare_eval:
  "heap spare = [\<lparr>val = 1, adjacent = [Some (Obj 1)]\<rparr>,
                 \<lparr>val = 2, adjacent = [Some (Obj 0), Some (Obj 2)]\<rparr>,
                 \<lparr>val = 3, adjacent = [Some (Obj 1)]\<rparr>, \<lparr>val = 5, adjacent = []\<rparr>]"
  "nodes spare = [Some (Obj 0), Some (Obj 1), Some (Obj 2)]"
  "objects spare = [fresh 1 1, fresh 2 2, fresh 3 3, fresh 5 4]"
  "nodes_field spare = 0"
  by (simp_all add: spare_def chain_def run_defs)

lemma islands_eval:
  "heap islands = [\<lparr>val = 1, adjacent = [Some (Obj 1)]\<rparr>,
                   \<lparr>val = 2, adjacent = [Some (Obj 0), Some (Obj 2)]\<rparr>,
                   \<lparr>val = 3, adjacent = [Some (Obj 1)]\<rparr>, \<lparr>val = 5, adjacent = []\<rparr>]"
  "nodes islands = [Some (Obj 0), Some (Obj 1), Some (Obj 2), Some (Obj 3)]"
  "stack_room islands = 3000"
  by (simp_all add: islands_def spare_def chain_def run_defs)

lemma triangle_eval:
  "heap triangle = [\<lparr>val = 1, adjacent = [Some (Obj 1), Some (Obj 2)]\<rparr>,
                    \<lparr>val = 2, adjacent = [Some (Obj 0), Some (Obj 2)]\<rparr>,
                    \<lparr>val = 3, adjacent = [Some (Obj 1), Some (Obj 0)]\<rparr>]"
  "nodes triangle = [Some (Obj 0), Some (Obj 1), Some (Obj 2)]"
  "stack_room triangle = 3000"
  by (simp_all add: triangle_def chain_def run_defs)

lemma islands_reach:
  "reaches (heap islands) (Obj 0) v \<Longrightarrow> v \<in> {Obj 0, Obj 1, Obj 2}"
proof (induction rule: reaches.induct)
  case start
  show ?case by simp
next
  case (link u n v)
  then show ?case by (auto simp: islands_eval has_def)
qed

lemma path_closed: "closed_heap (heap (path_graph n r))"
  by (auto simp: closed_heap_def path_graph_def heap_def fresh_def path_entries_def)

subsection \<open>Traversal of the chain\<close>

text \<open>
  C7. On the graph with the vertices A (value 1), B (value 2), C (value 3) added in
  that order and the edges A-B and B-C, \<open>breadthFirstSearch(A)\<close> and
  \<open>depthFirstSearch(A)\<close> both return the sequence 1, 2, 3.
\<close>

theorem chain_traversals:
  "fst (breadthFirstSearch chain (Obj 0)) = Inr [1, 2, 3]
   \<and> fst (depthFirstSearch chain (Obj 0)) = Inr [1, 2, 3]"
  by (simp add: chain_eval breadthFirstSearch_def depthFirstSearch_def add_def has_def)

subsection \<open>The start argument\<close>

text \<open>
  C3, as stated, fails: \<open>depthFirstSearch\<close> never consults \<open>nodes\<close>. Started at
  a vertex that is not a member of the graph, it records that vertex's value.
\<close>

theorem dfs_absent_start_counterexample:
  "\<not> has (Obj 0) (nodes lone) \<and> fst (depthFirstSearch lone (Obj 0)) = Inr [7]"
  by (simp add: lone_def new_graph_def fresh_def depthFirstSearch_def heap_def nodes_def
      has_def add_def)

text \<open>
  C3, amended. For a start argument that is \<open>null\<close> or \<open>undefined\<close>,
  \<open>depthFirstSearch\<close> returns the empty sequence: the test \<open>!vertex\<close> returns before
  anything is recorded.
\<close>

theorem dfs_falsy_start:
  "falsy start \<Longrightarrow> depthFirstSearch s start = (Inr [], s)"
  by (simp add: depthFirstSearch_def)

theorem dfs_falsy_start_witness:
  "falsy Null \<and> depthFirstSearch chain Null = (Inr [], chain)"
  using dfs_falsy_start [of Null chain] by simp

text \<open>
  C4. \<open>breadthFirstSearch\<close> has no such test: with \<open>null\<close> or \<open>undefined\<close> as start
  it dequeues that value and throws a \<open>TypeError\<close> on reading its \<open>value\<close>; it does
  not return the empty sequence, which \<open>depthFirstSearch\<close> does.
\<close>

theorem bfs_no_null_check:
  "breadthFirstSearch s Null = (Inl TypeError, s)
   \<and> breadthFirstSearch s Undefined = (Inl TypeError, s)
   \<and> fst (breadthFirstSearch s Null) \<noteq> Inr []
   \<and> fst (breadthFirstSearch s Undefined) \<noteq> Inr []
   \<and> depthFirstSearch s Null = (Inr [], s)
   \<and> depthFirstSearch s Undefined = (Inr [], s)"
  by (simp add: breadthFirstSearch_def depthFirstSearch_def add_def has_def)

subsection \<open>Arguments that are not members\<close>

text \<open>
  C5. When an argument is not a member of \<open>nodes\<close>, \<open>addEdge\<close>, \<open>removeEdge\<close> and
  \<open>removeVertex\<close> return without an error and leave the whole state, \<open>nodes\<close> and
  every adjacency set, as it was.
\<close>

theorem non_member_no_op:
  "(\<not> has v1 (nodes s) \<or> \<not> has v2 (nodes s) \<longrightarrow>
      addEdge s v1 v2 = (None, s) \<and> removeEdge s v1 v2 = (None, s))
   \<and> (\<not> has v (nodes s) \<longrightarrow> removeVertex s v = (None, s))"
  by (simp add: addEdge_def removeEdge_def removeVertex_def)

theorem non_member_no_op_witness:
  "\<not> has (Obj 7) (nodes chain)
   \<and> addEdge chain (Obj 0) (Obj 7) = (None, chain)
   \<and> removeEdge chain (Obj 7) (Obj 0) = (None, chain)
   \<and> removeVertex chain (Obj 7) = (None, chain)"
  using non_member_no_op [of "Obj 0" chain "Obj 7" "Obj 7"]
    non_member_no_op [of "Obj 7" chain "Obj 0" "Obj 7"]
  by (simp add: chain_eval has_def)

subsection \<open>The traversals change nothing\<close>

text \<open>
  C10. \<open>depthFirstSearch\<close> and \<open>breadthFirstSearch\<close> leave \<open>nodes\<close> and every
  adjacency set as they were, whether they return a sequence or throw: they write
  only to their local variables.
\<close>

theorem traversals_read_only:
  "snd (depthFirstSearch s start) = s \<and> snd (breadthFirstSearch s start) = s"
  by (simp add: depthFirstSearch_def breadthFirstSearch_def split: sum.splits prod.splits)

subsection \<open>Edge symmetry\<close>

text \<open>
  C1, as stated, fails, in two ways. \<open>addVertex\<close> adds the vertex to \<open>nodes\<close>
  whatever its adjacency set holds: A is a member, B lists A and A does not list B;
  the graph is symmetric before B is added and not after. And \<open>addEdge\<close> writes
  into the \<open>Set\<close> a vertex holds, which another vertex can hold too: A and B hold one
  \<open>Set\<close>, so \<open>addEdge(A, C)\<close> makes B list C while C lists only A.
\<close>

theorem symmetry_counterexample:
  "unshared lopsided \<and> symmetric lopsided \<and> \<not> symmetric (snd (addVertex lopsided (Obj 1)))
   \<and> symmetric twins \<and> \<not> symmetric (snd (addEdge twins (Obj 0) (Obj 2)))"
  by (simp add: lopsided_def twins_def run_defs unshared_def symmetric_def sym_pair_def is_node_def)

text \<open>
  C1, amended. In a graph where every vertex holds an adjacency \<open>Set\<close> of its own
  (none shared with another vertex or with \<open>nodes\<close>), edge symmetry is kept by
  \<open>addEdge\<close>, \<open>removeEdge\<close> and \<open>removeVertex\<close> whenever it held before, also when
  they throw; \<open>addVertex\<close> keeps it when the added vertex is symmetric with every
  member, and \<open>addVertices\<close> when each added vertex is symmetric with every member and
  every other added vertex.
\<close>

theorem symmetry_preserved:
  assumes "unshared s" and "symmetric s"
  shows "symmetric (snd (addEdge s v1 v2))
     \<and> symmetric (snd (removeEdge s v1 v2))
     \<and> symmetric (snd (removeVertex s v))
     \<and> ((\<forall>u\<in>set (elems (nodes s)). sym_pair s u v) \<longrightarrow> symmetric (snd (addVertex s v)))
     \<and> ((\<forall>x\<in>set vs. \<forall>u\<in>set (elems (nodes s)) \<union> set vs. sym_pair s u x)
          \<longrightarrow> symmetric (snd (addVertices s vs)))"
proof (intro conjI impI)
  show "symmetric (snd (addEdge s v1 v2))" by (rule addEdge_symmetric [OF assms])
  show "symmetric (snd (removeEdge s v1 v2))" by (rule removeEdge_symmetric [OF assms])
  show "symmetric (snd (removeVertex s v))" by (rule removeVertex_symmetric [OF assms])
next
  assume "\<forall>u\<in>set (elems (nodes s)). sym_pair s u v"
  then have "\<forall>u. has u (nodes s) \<longrightarrow> sym_pair s u v \<and> sym_pair s v u"
    by (auto simp: has_elems sym_pair_commute)
  with assms(2) show "symmetric (snd (addVertex s v))"
    unfolding symmetric_has
    by (auto simp: addVertex_def nodes_upd [OF assms(1)] has_add
        sym_pair_nodes_upd [OF assms(1)] sym_pair_refl)
next
  assume a: "\<forall>x\<in>set vs. \<forall>u\<in>set (elems (nodes s)) \<union> set vs. sym_pair s u x"
  note sp = addVertices_spec [OF assms(1), of _ vs]
  show "symmetric (snd (addVertices s vs))"
    unfolding symmetric_has
  proof (intro allI impI)
    fix u x
    assume "has u (nodes (snd (addVertices s vs)))" "has x (nodes (snd (addVertices s vs)))"
    then have u: "has u (nodes s) \<or> u \<in> set vs" and x: "has x (nodes s) \<or> x \<in> set vs"
      by (simp_all add: sp)
    have "sym_pair s u x"
    proof (cases "x \<in> set vs")
      case True
      with a u show ?thesis by (auto simp: has_elems)
    next
      case xs: False
      show ?thesis
      proof (cases "u \<in> set vs")
        case True
        with a x have "sym_pair s x u" by (auto simp: has_elems)
        then show ?thesis by (simp add: sym_pair_commute)
      next
        case False
        with xs u x assms(2) show ?thesis by (simp add: symmetric_has)
      qed
    qed
    then show "sym_pair (snd (addVertices s vs)) u x" by (simp add: sym_pair_def sp)
  qed
qed

theorem symmetry_preserved_witness:
  "unshared spare \<and> symmetric spare
   \<and> symmetric (snd (addEdge spare (Obj 0) (Obj 2)))
   \<and> symmetric (snd (removeEdge spare (Obj 0) (Obj 1)))
   \<and> symmetric (snd (removeVertex spare (Obj 1)))
   \<and> sym_pair spare (Obj 0) (Obj 3) \<and> sym_pair spare (Obj 1) (Obj 3)
   \<and> sym_pair spare (Obj 2) (Obj 3)
   \<and> symmetric (snd (addVertex spare (Obj 3)))
   \<and> symmetric (snd (addVertices spare [Obj 3, Obj 0]))"
proof -
  have u: "unshared spare" by (simp add: unshared_def spare_eval fresh_def)
  have h: "symmetric spare"
    by (simp add: spare_eval symmetric_def sym_pair_def is_node_def adjacent_of_def has_def)
  have a: "\<forall>u\<in>set (elems (nodes spare)). sym_pair spare u (Obj 3)"
    by (simp add: spare_eval sym_pair_def is_node_def adjacent_of_def has_def)
  have b: "\<forall>x\<in>set [Obj 3, Obj 0]. \<forall>u\<in>set (elems (nodes spare)) \<union> set [Obj 3, Obj 0]. sym_pair spare u x"
    by (simp add: spare_eval sym_pair_def is_node_def adjacent_of_def has_def)
  from symmetry_preserved [OF u h, of "Obj 0" "Obj 2" "Obj 1" "[Obj 3, Obj 0]"]
    symmetry_preserved [OF u h, of "Obj 0" "Obj 1" "Obj 3" "[Obj 3, Obj 0]"] u h a b
  show ?thesis by (simp add: spare_eval)
qed

subsection \<open>Removing a vertex\<close>







subsection \<open>Reachability\<close>

text \<open>
  C6. A sequence returned by \<open>depthFirstSearch(start)\<close> or \<open>breadthFirstSearch(start)\<close>
  lists the values of vertices that are all reachable from \<open>start\<close> through adjacency
  sets: a vertex that is not reachable from \<open>start\<close> is not among them.
\<close>

theorem traversals_reachable_only:
  "(fst (depthFirstSearch s start) = Inr r \<longrightarrow>
      (\<exists>vs. map (value_of (heap s)) vs = map Some r \<and> (\<forall>v\<in>set vs. reaches (heap s) start v)))
   \<and> (fst (breadthFirstSearch s start) = Inr r' \<longrightarrow>
      (\<exists>vs. map (value_of (heap s)) vs = map Some r' \<and> (\<forall>v\<in>set vs. reaches (heap s) start v)))"
proof (intro conjI impI)
  assume "fst (depthFirstSearch s start) = Inr r"
  then obtain visited where "dfs (heap s) (stack_room s) start ([], []) = Inr (visited, r)"
    by (auto simp: depthFirstSearch_def split: sum.splits)
  from dfs_start_trace [OF this]
  show "\<exists>vs. map (value_of (heap s)) vs = map Some r \<and> (\<forall>v\<in>set vs. reaches (heap s) start v)"
    by (auto simp: trace_ok_def)
next
  assume "fst (breadthFirstSearch s start) = Inr r'"
  then obtain visited where "bfs_while (heap s) [start] [] (add start []) = Inr (visited, r')"
    by (auto simp: breadthFirstSearch_def split: sum.splits)
  from bfs_start_trace [OF this]
  show "\<exists>vs. map (value_of (heap s)) vs = map Some r' \<and> (\<forall>v\<in>set vs. reaches (heap s) start v)"
    by (auto simp: trace_ok_def)
qed

theorem traversals_reachable_only_witness:
  "fst (depthFirstSearch islands (Obj 0)) = Inr [1, 2, 3]
   \<and> fst (breadthFirstSearch islands (Obj 0)) = Inr [1, 2, 3]
   \<and> (\<exists>vs. map (value_of (heap islands)) vs = map Some [1, 2, 3]
          \<and> (\<forall>v\<in>set vs. reaches (heap islands) (Obj 0) v))
   \<and> has (Obj 3) (nodes islands) \<and> \<not> reaches (heap islands) (Obj 0) (Obj 3)"
proof -
  have d: "fst (depthFirstSearch islands (Obj 0)) = Inr [1, 2, 3]"
    by (simp add: islands_eval depthFirstSearch_def add_def has_def)
  have b: "fst (breadthFirstSearch islands (Obj 0)) = Inr [1, 2, 3]"
    by (simp add: islands_eval breadthFirstSearch_def add_def has_def)
  have m: "has (Obj 3) (nodes islands)" by (simp add: islands_eval has_def)
  have u: "\<not> reaches (heap islands) (Obj 0) (Obj 3)" using islands_reach [of "Obj 3"] by auto
  from traversals_reachable_only [of islands "Obj 0" "[1, 2, 3]" "[1, 2, 3]"] d b m u
  show ?thesis by simp
qed

subsection \<open>Termination\<close>

text \<open>
  C8, as stated, fails: \<open>depthFirstSearch\<close> does not always return. The closure
  \<open>dfs\<close> calls itself once more for every vertex along a path, and the call stack
  is finite: on the path of 5000 vertices (a graph whose adjacency sets hold only
  vertices), started at its first vertex with room for 3000 nested activations, it
  throws a \<open>RangeError\<close>. Whatever the room, a path that is long enough does that.
\<close>

theorem dfs_overflow_counterexample:
  "closed_heap (heap (path_graph 5000 3000))
   \<and> node_of (heap (path_graph 5000 3000)) (Obj 0) \<noteq> None
   \<and> fst (depthFirstSearch (path_graph 5000 3000) (Obj 0)) = Inl RangeError"
proof -
  have d: "dfs (heap (path_graph 5000 3000)) 3000 (Obj 0) ([], []) = Inl RangeError"
    by (rule dfs_path_overflow) simp_all
  have r: "stack_room (path_graph 5000 3000) = 3000" by (simp add: path_graph_def)
  have "depthFirstSearch (path_graph 5000 3000) (Obj 0) = (Inl RangeError, path_graph 5000 3000)"
    by (simp only: depthFirstSearch_def r d sum.case)
  moreover have "node_of (heap (path_graph 5000 3000)) (Obj 0) \<noteq> None"
    using path_heap(2) [of 0 5000 3000] by (simp del: node_of.simps)
  ultimately show ?thesis by (simp only: path_closed fst_conv simp_thms)
qed

text \<open>
  C8, amended. Both traversals terminate on every graph, cyclic or not: the recursion
  of \<open>dfs\<close> and the loop of \<open>breadthFirstSearch\<close> are well-founded at every argument
  (as is the loop of \<open>removeVertex\<close>; the other methods have no unbounded loop), so
  every operation is a finite computation that returns or throws. When a traversal
  returns, the vertices marked visited are pairwise different and the result lists
  their values in order: \<open>depthFirstSearch\<close> records no vertex twice and
  \<open>breadthFirstSearch\<close>, which marks on enqueue, enqueues no vertex twice. On a graph
  whose adjacency sets hold only vertices, started at a vertex,
  \<open>breadthFirstSearch\<close> returns a sequence, and \<open>depthFirstSearch\<close> returns one when
  the call stack has room for as many activations of \<open>dfs\<close> as there are vertices.
\<close>

theorem traversals_terminate:
  "dfs_dfs_forEach_dom (Inl (heap s, stack_room s, start, ([], [])))
   \<and> bfs_while_dom (heap s, [start], [], add start [])
   \<and> (\<forall>visited result. dfs (heap s) (stack_room s) start ([], []) = Inr (visited, result) \<longrightarrow>
        distinct (elems visited) \<and> map (value_of (heap s)) (elems visited) = map Some result)
   \<and> (\<forall>visited result. bfs_while (heap s) [start] [] (add start []) = Inr (visited, result) \<longrightarrow>
        distinct (elems visited) \<and> map (value_of (heap s)) (elems visited) = map Some result)
   \<and> (closed_heap (heap s) \<and> node_of (heap s) start \<noteq> None \<longrightarrow>
        (length (heap s) \<le> Suc (stack_room s) \<longrightarrow> (\<exists>r. fst (depthFirstSearch s start) = Inr r))
        \<and> (\<exists>r. fst (breadthFirstSearch s start) = Inr r))
   \<and> removeVertex_loop_dom (s, v, 0)"
proof (intro conjI allI impI)
  show "dfs_dfs_forEach_dom (Inl (heap s, stack_room s, start, ([], [])))" using dfs_total by blast
  show "bfs_while_dom (heap s, [start], [], add start [])" using bfs_total by blast
  show "removeVertex_loop_dom (s, v, 0)" using removeVertex_loop_total by blast
next
  fix visited result
  assume "dfs (heap s) (stack_room s) start ([], []) = Inr (visited, result)"
  from dfs_start_trace [OF this] show "distinct (elems visited)"
    and "map (value_of (heap s)) (elems visited) = map Some result"
    by (simp_all add: trace_ok_def)
next
  fix visited result
  assume "bfs_while (heap s) [start] [] (add start []) = Inr (visited, result)"
  from bfs_start_trace [OF this] show "distinct (elems visited)"
    and "map (value_of (heap s)) (elems visited) = map Some result"
    by (simp_all add: trace_ok_def)
next
  assume a: "closed_heap (heap s) \<and> node_of (heap s) start \<noteq> None"
    and l: "length (heap s) \<le> Suc (stack_room s)"
  from l have "unvisited (heap s) (fst (([], []) :: jsval jsset \<times> 'a list)) \<le> Suc (stack_room s)"
    by (simp add: unvisited_Nil)
  with a obtain st' where "dfs (heap s) (stack_room s) start ([], []) = Inr st'"
    using dfs_enough_room(1) [of "heap s" start "([], [])" "stack_room s"] by auto
  then show "\<exists>r. fst (depthFirstSearch s start) = Inr r"
    by (cases st') (simp add: depthFirstSearch_def)
next
  assume a: "closed_heap (heap s) \<and> node_of (heap s) start \<noteq> None"
  then obtain st2 where "bfs_while (heap s) [start] [] (add start []) = Inr st2"
    using bfs_while_returns [of "heap s" "[start]" "[]" "add start []"] by auto
  then show "\<exists>r. fst (breadthFirstSearch s start) = Inr r"
    by (cases st2) (simp add: breadthFirstSearch_def)
qed

theorem traversals_terminate_witness:
  "closed_heap (heap triangle) \<and> node_of (heap triangle) (Obj 0) \<noteq> None
   \<and> length (heap triangle) \<le> Suc (stack_room triangle)
   \<and> dfs (heap triangle) (stack_room triangle) (Obj 0) ([], [])
        = Inr ([Some (Obj 0), Some (Obj 1), Some (Obj 2)], [1, 2, 3])
   \<and> bfs_while (heap triangle) [Obj 0] [] (add (Obj 0) [])
        = Inr ([Some (Obj 0), Some (Obj 1), Some (Obj 2)], [1, 2, 3])
   \<and> distinct (elems [Some (Obj 0), Some (Obj 1), Some (Obj 2)])
   \<and> map (value_of (heap triangle)) (elems [Some (Obj 0), Some (Obj 1), Some (Obj 2)])
        = map Some [1, 2, 3]
   \<and> (\<exists>r. fst (depthFirstSearch triangle (Obj 0)) = Inr r)
   \<and> (\<exists>r. fst (breadthFirstSearch triangle (Obj 0)) = Inr r)
   \<and> dfs_dfs_forEach_dom (Inl (heap triangle, stack_room triangle, Obj 0, ([], [])))
   \<and> bfs_while_dom (heap triangle, [Obj 0], [], add (Obj 0) [])
   \<and> removeVertex_loop_dom (triangle, Obj 0, 0)"
proof -
  have c: "closed_heap (heap triangle)" "node_of (heap triangle) (Obj 0) \<noteq> None"
    "length (heap triangle) \<le> Suc (stack_room triangle)"
    by (simp_all add: triangle_eval closed_heap_def)
  have d: "dfs (heap triangle) (stack_room triangle) (Obj 0) ([], [])
      = Inr ([Some (Obj 0), Some (Obj 1), Some (Obj 2)], [1, 2, 3])"
    by (simp add: triangle_eval add_def has_def)
  have b: "bfs_while (heap triangle) [Obj 0] [] (add (Obj 0) [])
      = Inr ([Some (Obj 0), Some (Obj 1), Some (Obj 2)], [1, 2, 3])"
    by (simp add: triangle_eval add_def has_def)
  from traversals_terminate [of triangle "Obj 0" "Obj 0"] c d b show ?thesis by blast
qed
end
